theory Spec2Isabelle
  imports Main
begin

section \<open>Python strings\<close>

text \<open>
  A Python \<open>str\<close> is a sequence of Unicode code points, so a string is a list of
  natural numbers. \<open>len\<close> counts code points, \<open>utf8_len\<close> counts encoded bytes.
  Python's code points are below \<open>0x110000\<close>; no definition depends on that bound.
\<close>

type_synonym pychar = nat
type_synonym pystr = "nat list"

definition ascii :: "string \<Rightarrow> pystr" where
  "ascii s = map of_char s"

text \<open>The literals of \<open>split_md_by_size.py\<close>: \<open>"\n"\<close>, \<open>"---\n"\<close> and \<open>"id:"\<close>.\<close>

abbreviation NL :: pychar where
  "NL \<equiv> 10"

abbreviation delim :: pystr where
  "delim \<equiv> [45, 45, 45, 10]"

abbreviation id_colon :: pystr where
  "id_colon \<equiv> [105, 100, 58]"

definition startswith :: "pystr \<Rightarrow> pystr \<Rightarrow> bool" where
  "startswith s p = (take (length p) s = p)"

definition endswith :: "pystr \<Rightarrow> pystr \<Rightarrow> bool" where
  "endswith s p = (length p \<le> length s \<and> drop (length s - length p) s = p)"

text \<open>\<open>s[a:b]\<close> for indices that are not negative; Python clamps both to the length.\<close>

definition slice :: "pystr \<Rightarrow> nat \<Rightarrow> nat \<Rightarrow> pystr" where
  "slice s a b = take (b - a) (drop a s)"

text \<open>
  The class \<open>\s\<close> of a \<open>str\<close> pattern is \<open>str.isspace\<close> on one character: the code
  points CPython lists as whitespace.
\<close>

definition unicode_space :: "pychar \<Rightarrow> bool" where
  "unicode_space c =
     ((9 \<le> c \<and> c \<le> 13) \<or> (28 \<le> c \<and> c \<le> 32) \<or> c = 133 \<or> c = 160 \<or> c = 5760
      \<or> (8192 \<le> c \<and> c \<le> 8202) \<or> c = 8232 \<or> c = 8233 \<or> c = 8239 \<or> c = 8287
      \<or> c = 12288)"

text \<open>The line boundaries of \<open>str.splitlines\<close>, apart from the pair \<open>\r\n\<close>.\<close>

definition linebreak :: "pychar \<Rightarrow> bool" where
  "linebreak c =
     ((10 \<le> c \<and> c \<le> 13) \<or> (28 \<le> c \<and> c \<le> 30) \<or> c = 133 \<or> c = 8232 \<or> c = 8233)"

subsection \<open>\<open>utf8_len\<close>\<close>

text \<open>
  \<open>s.encode("utf-8")\<close> raises \<open>UnicodeEncodeError\<close> on a surrogate code point
  (U+D800 to U+DFFF). Text decoded from a file holds none: the decoder replaces what it
  cannot decode by U+FFFD.
\<close>

datatype error = UnicodeEncodeError

definition surrogate :: "pychar \<Rightarrow> bool" where
  "surrogate c = (55296 \<le> c \<and> c \<le> 57343)"

definition encodable :: "pystr \<Rightarrow> bool" where
  "encodable s = (\<forall>c \<in> set s. \<not> surrogate c)"

definition utf8_width :: "pychar \<Rightarrow> int" where
  "utf8_width c = (if c < 128 then 1 else if c < 2048 then 2 else if c < 65536 then 3 else 4)"

definition utf8_bytes :: "pystr \<Rightarrow> int" where
  "utf8_bytes s = sum_list (map utf8_width s)"

definition utf8_len :: "pystr \<Rightarrow> error + int" where
  "utf8_len s = (if encodable s then Inr (utf8_bytes s) else Inl UnicodeEncodeError)"

subsection \<open>\<open>str.splitlines(keepends=True)\<close>\<close>

text \<open>
  \<open>splitlines_from line s\<close> scans \<open>s\<close> with the characters of the current line in
  \<open>line\<close>. A line ends after a line boundary, \<open>\r\n\<close> counting as one; what follows the
  last boundary is a line when it is not empty.
\<close>

fun splitlines_from :: "pystr \<Rightarrow> pystr \<Rightarrow> pystr list" where
  "splitlines_from line [] = (if line = [] then [] else [line])"
| "splitlines_from line [c] = [line @ [c]]"
| "splitlines_from line (c # d # s) =
     (if c = 13 \<and> d = NL then (line @ [c, d]) # splitlines_from [] s
      else if linebreak c then (line @ [c]) # splitlines_from [] (d # s)
      else splitlines_from (line @ [c]) (d # s))"

definition splitlines :: "pystr \<Rightarrow> pystr list" where
  "splitlines s = splitlines_from [] s"

section \<open>Record boundaries\<close>

text \<open>
  \<open>re.match(r"(?m)^id:\s", s)\<close> matches at the start of \<open>s\<close> only: the three characters
  \<open>id:\<close> and one whitespace character. The lookahead \<open>(?=id:\s)\<close> tests the same.
\<close>

definition match_id :: "pystr \<Rightarrow> bool" where
  "match_id s = (startswith s id_colon \<and> 3 < length s \<and> unicode_space (s ! 3))"

text \<open>
  The pattern \<open>\n{2,}(---\n(?=id:\s))\<close> tried at position \<open>i\<close>. The greedy \<open>\n{2,}\<close>
  first takes every newline from \<open>i\<close> on (\<open>newline_run\<close>), and the engine backtracks
  one newline at a time, down to two, until the group matches behind it. The result is
  the start of group 1; the match ends four characters later.
\<close>

definition newline_run :: "pystr \<Rightarrow> nat \<Rightarrow> nat" where
  "newline_run md i = length (takeWhile (\<lambda>c. c = NL) (drop i md))"

definition group_at :: "pystr \<Rightarrow> nat \<Rightarrow> bool" where
  "group_at md j = (startswith (drop j md) delim \<and> match_id (drop (j + 4) md))"

fun backtrack :: "pystr \<Rightarrow> nat \<Rightarrow> nat \<Rightarrow> nat option" where
  "backtrack md i n =
     (if n < 2 then None
      else if group_at md (i + n) then Some (i + n)
      else backtrack md i (n - 1))"

definition pat_match_at :: "pystr \<Rightarrow> nat \<Rightarrow> nat option" where
  "pat_match_at md i = backtrack md i (newline_run md i)"

declare backtrack.simps [simp del]

text \<open>
  \<open>pat.finditer(md)\<close> from position \<open>i\<close>: the matches from left to right, none
  overlapping; the search goes on where the last match ended, or one character further
  when none starts at \<open>i\<close>. The list holds \<open>m.start(1)\<close> of every match.
\<close>

function finditer_from :: "pystr \<Rightarrow> nat \<Rightarrow> nat list" where
  "finditer_from md i =
     (if length md < i then []
      else case pat_match_at md i of
             Some g \<Rightarrow> g # finditer_from md (g + 4)
           | None \<Rightarrow> finditer_from md (i + 1))"
  by pat_completeness auto
termination
proof (relation "measure (\<lambda>(md, i). Suc (length md) - i)")
  show "wf (measure (\<lambda>(md, i). Suc (length md) - i))"
    by simp
next
  fix md :: pystr and i g :: nat
  assume inside: "\<not> length md < i" and found: "pat_match_at md i = Some g"
  have "backtrack md i n = Some g \<Longrightarrow> i < g" for n
  proof (induction n)
    case 0
    then show ?case
      by (subst (asm) backtrack.simps) simp
  next
    case (Suc n)
    then show ?case
      by (subst (asm) (2) backtrack.simps) (auto split: if_splits)
  qed
  with found inside have "i < g" and "i \<le> length md"
    by (simp_all add: pat_match_at_def)
  then show "((md, g + 4), (md, i)) \<in> measure (\<lambda>(md, i). Suc (length md) - i)"
    by simp
next
  fix md :: pystr and i :: nat
  assume "\<not> length md < i"
  then show "((md, i + 1), (md, i)) \<in> measure (\<lambda>(md, i). Suc (length md) - i)"
    by simp
qed

declare finditer_from.simps [simp del]

definition find_record_starts :: "pystr \<Rightarrow> nat list" where
  "find_record_starts md =
     (let starts = (if startswith md delim \<and> match_id (slice md 4 80) then [0] else []);
          starts = starts @ finditer_from md 0
      in sort (remdups starts))"

text \<open>
  The specification's words for a record start: offset 0 when the document opens with
  the header marker, and a position "immediately after any run of two or more
  consecutive blank lines" that the header marker follows. A blank line is an empty
  line: a newline at the start of the document or right after another newline.
\<close>

definition spec_blank_line :: "pystr \<Rightarrow> nat \<Rightarrow> bool" where
  "spec_blank_line md p = (p < length md \<and> md ! p = NL \<and> (p = 0 \<or> md ! (p - 1) = NL))"

definition spec_record_start :: "pystr \<Rightarrow> nat \<Rightarrow> bool" where
  "spec_record_start md j =
     (group_at md j \<and>
      (j = 0 \<or> (2 \<le> j \<and> spec_blank_line md (j - 1) \<and> spec_blank_line md (j - 2))))"

text \<open>The loop of \<open>split_into_records\<close> over \<open>enumerate(starts)\<close>.\<close>

fun records_from :: "pystr \<Rightarrow> nat list \<Rightarrow> pystr list" where
  "records_from md [] = []"
| "records_from md [st] = [slice md st (length md)]"
| "records_from md (st # nxt # starts) = slice md st nxt # records_from md (nxt # starts)"

definition split_into_records :: "pystr \<Rightarrow> pystr list" where
  "split_into_records md =
     (let starts = find_record_starts md
      in if starts = [] then [md] else records_from md starts)"

section \<open>The chunker\<close>

text \<open>The local state of \<open>chunk_records_by_size\<close>: \<open>chunks\<close>, \<open>cur\<close> and \<open>cur_bytes\<close>.\<close>

record chunker =
  chunks :: "pystr list"
  cur :: pystr
  cur_bytes :: int

definition push_current :: "chunker \<Rightarrow> chunker" where
  "push_current st =
     (if cur st \<noteq> [] then st\<lparr>chunks := chunks st @ [cur st], cur := [], cur_bytes := 0\<rparr>
      else st)"

text \<open>
  The loop over the lines of an oversized record (source lines 75 to 82), on the state
  \<open>(chunks, part, part_b)\<close>.
\<close>

fun pack_lines ::
  "int \<Rightarrow> pystr list \<Rightarrow> pystr list \<times> pystr \<times> int \<Rightarrow> error + (pystr list \<times> pystr \<times> int)" where
  "pack_lines max_bytes [] s = Inr s"
| "pack_lines max_bytes (ln # lns) (out, part, part_b) =
     (case utf8_len ln of
        Inl e \<Rightarrow> Inl e
      | Inr ln_b \<Rightarrow>
          (if part_b + ln_b > max_bytes \<and> part \<noteq> []
           then pack_lines max_bytes lns (out @ [part], [] @ ln, 0 + ln_b)
           else pack_lines max_bytes lns (out, part @ ln, part_b + ln_b)))"

text \<open>Source lines 72 to 84: split the record by lines and append what is left.\<close>

definition split_large_record :: "int \<Rightarrow> pystr \<Rightarrow> pystr list \<Rightarrow> error + pystr list" where
  "split_large_record max_bytes rec out =
     (case pack_lines max_bytes (splitlines rec) (out, [], 0) of
        Inl e \<Rightarrow> Inl e
      | Inr (out', part, part_b) \<Rightarrow> Inr (if part \<noteq> [] then out' @ [part] else out'))"

text \<open>The body of the loop over the records (source lines 66 to 92).\<close>

definition chunk_step :: "int \<Rightarrow> chunker \<Rightarrow> pystr \<Rightarrow> error + chunker" where
  "chunk_step max_bytes st rec =
     (case utf8_len rec of
        Inl e \<Rightarrow> Inl e
      | Inr rec_b \<Rightarrow>
          (if rec_b > max_bytes then
             (let st1 = push_current st in
              case split_large_record max_bytes rec (chunks st1) of
                Inl e \<Rightarrow> Inl e
              | Inr out \<Rightarrow> Inr (st1\<lparr>chunks := out\<rparr>))
           else
             (let st1 = (if cur_bytes st + rec_b > max_bytes \<and> cur st \<noteq> []
                         then push_current st else st)
              in Inr (st1\<lparr>cur := cur st1 @ rec, cur_bytes := cur_bytes st1 + rec_b\<rparr>))))"

fun chunk_loop :: "int \<Rightarrow> pystr list \<Rightarrow> chunker \<Rightarrow> error + chunker" where
  "chunk_loop max_bytes [] st = Inr st"
| "chunk_loop max_bytes (rec # recs) st =
     (case chunk_step max_bytes st rec of
        Inl e \<Rightarrow> Inl e
      | Inr st' \<Rightarrow> chunk_loop max_bytes recs st')"

definition chunk_records_by_size :: "pystr list \<Rightarrow> int \<Rightarrow> error + pystr list" where
  "chunk_records_by_size records max_bytes =
     (case chunk_loop max_bytes records \<lparr>chunks = [], cur = [], cur_bytes = 0\<rparr> of
        Inl e \<Rightarrow> Inl e
      | Inr st \<Rightarrow> Inr (chunks (push_current st)))"

section \<open>The output writer\<close>

text \<open>What \<open>main\<close> writes to the file of a chunk (source lines 129 to 131).\<close>

definition file_content :: "pystr \<Rightarrow> pystr" where
  "file_content content = (if \<not> endswith content [NL] then content @ [NL] else content)"

text \<open>
  The specification's words for the end of a written file: it "ends with a single
  trailing newline", that is with one newline and not with two.
\<close>

definition spec_single_trailing_newline :: "pystr \<Rightarrow> bool" where
  "spec_single_trailing_newline s = (endswith s [NL] \<and> \<not> endswith s [NL, NL])"

text \<open>
  The loop of \<open>main\<close> over \<open>enumerate(chunks, start=1)\<close>: the index and the content
  of every file it writes.
\<close>

definition written_files :: "pystr list \<Rightarrow> (nat \<times> pystr) list" where
  "written_files cs = zip [1..<Suc (length cs)] (map file_content cs)"

section \<open>The pipeline of \<open>main\<close>\<close>

definition pipeline :: "pystr \<Rightarrow> int \<Rightarrow> error + pystr list" where
  "pipeline md max_bytes = chunk_records_by_size (split_into_records md) max_bytes"

section \<open>Encoded lengths and lines\<close>

lemma utf8_bytes_Nil [simp]: "utf8_bytes [] = 0"
  by (simp add: utf8_bytes_def)

lemma utf8_bytes_append [simp]: "utf8_bytes (a @ b) = utf8_bytes a + utf8_bytes b"
  by (simp add: utf8_bytes_def)

lemma utf8_bytes_nonneg: "0 \<le> utf8_bytes s"
  by (induction s) (simp_all add: utf8_bytes_def utf8_width_def)

lemma encodable_Nil [simp]: "encodable []"
  by (simp add: encodable_def)

lemma encodable_append [simp]: "encodable (a @ b) \<longleftrightarrow> encodable a \<and> encodable b"
  by (auto simp: encodable_def)

lemma utf8_len_Inr: "utf8_len s = Inr n \<longleftrightarrow> encodable s \<and> n = utf8_bytes s"
  by (auto simp: utf8_len_def)

lemma utf8_len_Inl: "utf8_len s = Inl e \<longleftrightarrow> \<not> encodable s"
  by (cases e) (simp add: utf8_len_def)

lemma concat_splitlines_from: "concat (splitlines_from line s) = line @ s"
  by (induction line s rule: splitlines_from.induct) auto

lemma splitlines_from_nonempty: "[] \<notin> set (splitlines_from line s)"
  by (induction line s rule: splitlines_from.induct) auto

lemma concat_splitlines: "concat (splitlines s) = s"
  by (simp add: splitlines_def concat_splitlines_from)

lemma splitlines_nonempty: "l \<in> set (splitlines s) \<Longrightarrow> l \<noteq> []"
  using splitlines_from_nonempty [of "[]" s] by (auto simp: splitlines_def)

lemma encodable_concat: "encodable (concat ls) \<longleftrightarrow> (\<forall>l \<in> set ls. encodable l)"
  by (induction ls) simp_all

lemma splitlines_encodable: "encodable s \<Longrightarrow> l \<in> set (splitlines s) \<Longrightarrow> encodable l"
  using encodable_concat [of "splitlines s"] by (simp add: concat_splitlines)

lemma pack_lines_total:
  "\<forall>l \<in> set lns. encodable l \<Longrightarrow> \<exists>r. pack_lines mb lns (out, part, b) = Inr r"
  by (induction lns arbitrary: out part b) (simp_all add: utf8_len_def)

lemma pack_lines_encodable:
  "pack_lines mb lns s = Inr r \<Longrightarrow> \<forall>l \<in> set lns. encodable l"
proof (induction lns arbitrary: s)
  case Nil
  then show ?case by simp
next
  case (Cons ln lns)
  obtain out part b where s: "s = (out, part, b)" by (cases s)
  from Cons.prems show ?case
    unfolding s by (auto simp: utf8_len_def split: if_splits dest: Cons.IH)
qed

lemma pack_lines_concat:
  "pack_lines mb lns (out, part, b) = Inr (out', part', b') \<Longrightarrow>
   concat out' @ part' = concat out @ part @ concat lns"
proof (induction lns arbitrary: out part b)
  case Nil
  then show ?case by simp
next
  case (Cons ln lns)
  from Cons.prems show ?case
    by (auto simp: utf8_len_def split: if_splits dest: Cons.IH)
qed

lemma pack_lines_inv:
  assumes "pack_lines mb lns (out, part, b) = Inr (out', part', b')"
    and "\<forall>l \<in> set lns. l \<noteq> [] \<and> P l"
    and "\<And>c. c \<noteq> [] \<Longrightarrow> utf8_bytes c \<le> mb \<Longrightarrow> P c"
    and "\<forall>c \<in> set out. P c"
    and "part \<noteq> [] \<longrightarrow> P part"
    and "b = utf8_bytes part"
  shows "(\<forall>c \<in> set out'. P c) \<and> (part' \<noteq> [] \<longrightarrow> P part') \<and> b' = utf8_bytes part'"
  using assms
proof (induction lns arbitrary: out part b)
  case Nil
  then show ?case by auto
next
  case (Cons ln lns)
  from Cons.prems(1) have enc: "encodable ln"
    by (auto simp: utf8_len_def split: if_splits)
  from Cons.prems(2) have ln: "ln \<noteq> []" "P ln" and rest: "\<forall>l \<in> set lns. l \<noteq> [] \<and> P l"
    by simp_all
  show ?case
  proof (cases "b + utf8_bytes ln > mb \<and> part \<noteq> []")
    case True
    with Cons.prems(1) enc
    have run: "pack_lines mb lns (out @ [part], ln, utf8_bytes ln) = Inr (out', part', b')"
      by (simp add: utf8_len_def)
    show ?thesis
    proof (rule Cons.IH [OF run rest Cons.prems(3)])
      show "\<forall>c \<in> set (out @ [part]). P c"
        using Cons.prems(4,5) True by simp
      show "ln \<noteq> [] \<longrightarrow> P ln"
        using ln by simp
      show "utf8_bytes ln = utf8_bytes ln" ..
    qed
  next
    case False
    with Cons.prems(1) enc
    have run: "pack_lines mb lns (out, part @ ln, b + utf8_bytes ln) = Inr (out', part', b')"
      by (simp add: utf8_len_def)
    show ?thesis
    proof (rule Cons.IH [OF run rest Cons.prems(3)])
      show "\<forall>c \<in> set out. P c"
        using Cons.prems(4) .
      show "part @ ln \<noteq> [] \<longrightarrow> P (part @ ln)"
      proof (cases "part = []")
        case True
        then show ?thesis using ln by simp
      next
        case nonempty: False
        with False have "b + utf8_bytes ln \<le> mb" by simp
        then show ?thesis
          using Cons.prems(3) [of "part @ ln"] Cons.prems(6) nonempty by simp
      qed
      show "b + utf8_bytes ln = utf8_bytes (part @ ln)"
        using Cons.prems(6) by simp
    qed
  qed
qed

lemma pack_lines_out:
  "pack_lines mb lns (out, part, b) =
     (case pack_lines mb lns ([], part, b) of
        Inl e \<Rightarrow> Inl e
      | Inr (ys, part', b') \<Rightarrow> Inr (out @ ys, part', b'))"
proof (induction lns arbitrary: out part b)
  case Nil
  then show ?case by simp
next
  case (Cons ln lns)
  show ?case
  proof (cases "utf8_len ln")
    case (Inl e)
    then show ?thesis by simp
  next
    case (Inr n)
    show ?thesis
    proof (cases "b + n > mb \<and> part \<noteq> []")
      case True
      have "pack_lines mb (ln # lns) (out, part, b) = pack_lines mb lns (out @ [part], ln, n)"
        using Inr True by simp
      also have "\<dots> = (case pack_lines mb lns ([], ln, n) of
                         Inl e \<Rightarrow> Inl e
                       | Inr (ys, part', b') \<Rightarrow> Inr ((out @ [part]) @ ys, part', b'))"
        by (rule Cons.IH)
      finally have lhs: "pack_lines mb (ln # lns) (out, part, b) =
          (case pack_lines mb lns ([], ln, n) of
             Inl e \<Rightarrow> Inl e
           | Inr (ys, part', b') \<Rightarrow> Inr ((out @ [part]) @ ys, part', b'))" .
      have "pack_lines mb (ln # lns) ([], part, b) = pack_lines mb lns ([] @ [part], ln, n)"
        using Inr True by simp
      also have "\<dots> = (case pack_lines mb lns ([], ln, n) of
                         Inl e \<Rightarrow> Inl e
                       | Inr (ys, part', b') \<Rightarrow> Inr (([] @ [part]) @ ys, part', b'))"
        by (rule Cons.IH)
      finally have rhs: "pack_lines mb (ln # lns) ([], part, b) =
          (case pack_lines mb lns ([], ln, n) of
             Inl e \<Rightarrow> Inl e
           | Inr (ys, part', b') \<Rightarrow> Inr (([] @ [part]) @ ys, part', b'))" .
      show ?thesis
        unfolding lhs rhs by (simp split: sum.splits prod.splits)
    next
      case False
      have lhs: "pack_lines mb (ln # lns) (out, part, b) =
          (case pack_lines mb lns ([], part @ ln, b + n) of
             Inl e \<Rightarrow> Inl e
           | Inr (ys, part', b') \<Rightarrow> Inr (out @ ys, part', b'))"
        using Inr False Cons.IH [of out "part @ ln" "b + n"] by auto
      have rhs: "pack_lines mb (ln # lns) ([], part, b) = pack_lines mb lns ([], part @ ln, b + n)"
        using Inr False by auto
      show ?thesis
        unfolding lhs rhs by (simp split: sum.splits prod.splits)
    qed
  qed
qed

section \<open>Invariants of the chunker\<close>

lemma split_large_record_out:
  "split_large_record mb rec out =
     (case split_large_record mb rec [] of Inl e \<Rightarrow> Inl e | Inr ys \<Rightarrow> Inr (out @ ys))"
  unfolding split_large_record_def
  by (subst pack_lines_out) (simp split: sum.splits prod.splits)

lemma split_large_record_total:
  assumes "encodable rec"
  shows "\<exists>ys. split_large_record mb rec out = Inr ys"
proof -
  have "\<forall>l \<in> set (splitlines rec). encodable l"
    using assms by (blast intro: splitlines_encodable)
  then obtain r where "pack_lines mb (splitlines rec) (out, [], 0) = Inr r"
    using pack_lines_total by blast
  then show ?thesis
    by (cases r) (simp add: split_large_record_def)
qed

lemma split_large_record_concat:
  assumes "split_large_record mb rec out = Inr ys"
  shows "concat ys = concat out @ rec"
proof -
  from assms obtain out' part b
    where run: "pack_lines mb (splitlines rec) (out, [], 0) = Inr (out', part, b)"
      and ys: "ys = (if part \<noteq> [] then out' @ [part] else out')"
    by (auto simp: split_large_record_def split: sum.splits)
  from pack_lines_concat [OF run] have "concat out' @ part = concat out @ rec"
    by (simp add: concat_splitlines)
  then show ?thesis
    unfolding ys by auto
qed

lemma split_large_record_inv:
  assumes "split_large_record mb rec out = Inr ys"
    and "\<forall>l \<in> set (splitlines rec). P l"
    and "\<And>c. c \<noteq> [] \<Longrightarrow> utf8_bytes c \<le> mb \<Longrightarrow> P c"
    and "\<forall>c \<in> set out. P c"
  shows "\<forall>c \<in> set ys. P c"
proof -
  from assms(1) obtain out' part b
    where run: "pack_lines mb (splitlines rec) (out, [], 0) = Inr (out', part, b)"
      and ys: "ys = (if part \<noteq> [] then out' @ [part] else out')"
    by (auto simp: split_large_record_def split: sum.splits)
  have lines: "\<forall>l \<in> set (splitlines rec). l \<noteq> [] \<and> P l"
    using assms(2) splitlines_nonempty by blast
  have "(\<forall>c \<in> set out'. P c) \<and> (part \<noteq> [] \<longrightarrow> P part) \<and> b = utf8_bytes part"
    by (rule pack_lines_inv [OF run lines assms(3) assms(4)]) simp_all
  then show ?thesis
    unfolding ys by auto
qed

lemma push_current_chunks:
  "chunks (push_current st) = (if cur st \<noteq> [] then chunks st @ [cur st] else chunks st)"
  by (simp add: push_current_def)

lemma push_current_cur: "cur (push_current st) = []"
  by (simp add: push_current_def)

lemma push_current_cur_bytes:
  "cur_bytes (push_current st) = (if cur st \<noteq> [] then 0 else cur_bytes st)"
  by (simp add: push_current_def)

lemma chunk_step_large:
  assumes "encodable rec" and "mb < utf8_bytes rec"
  shows "chunk_step mb st rec =
     (case split_large_record mb rec [] of
        Inl e \<Rightarrow> Inl e
      | Inr ys \<Rightarrow> Inr ((push_current st)\<lparr>chunks := chunks (push_current st) @ ys\<rparr>))"
  using assms unfolding chunk_step_def utf8_len_def
  by (subst split_large_record_out) (simp add: Let_def split: sum.splits)

lemma chunk_step_small:
  assumes "encodable rec" and "utf8_bytes rec \<le> mb"
  shows "chunk_step mb st rec =
     Inr (if cur_bytes st + utf8_bytes rec > mb \<and> cur st \<noteq> []
          then (push_current st)\<lparr>cur := rec, cur_bytes := utf8_bytes rec\<rparr>
          else st\<lparr>cur := cur st @ rec, cur_bytes := cur_bytes st + utf8_bytes rec\<rparr>)"
  using assms unfolding chunk_step_def utf8_len_def
  by (simp add: Let_def push_current_def)

lemma chunk_step_encodable: "chunk_step mb st rec = Inr st' \<Longrightarrow> encodable rec"
  by (auto simp: chunk_step_def utf8_len_def split: if_splits)

lemma chunk_step_total:
  assumes "encodable rec"
  shows "\<exists>st'. chunk_step mb st rec = Inr st'"
proof (cases "mb < utf8_bytes rec")
  case True
  obtain ys where "split_large_record mb rec [] = Inr ys"
    using split_large_record_total [OF assms] by blast
  then show ?thesis
    by (simp add: chunk_step_large [OF assms True])
next
  case False
  then show ?thesis
    by (simp add: chunk_step_small [OF assms])
qed

lemma chunk_step_concat:
  assumes "chunk_step mb st rec = Inr st'"
  shows "concat (chunks st') @ cur st' = concat (chunks st) @ cur st @ rec"
proof -
  have enc: "encodable rec"
    using assms by (rule chunk_step_encodable)
  show ?thesis
  proof (cases "mb < utf8_bytes rec")
    case True
    from assms obtain ys where ys: "split_large_record mb rec [] = Inr ys"
      and st': "st' = (push_current st)\<lparr>chunks := chunks (push_current st) @ ys\<rparr>"
      by (auto simp: chunk_step_large [OF enc True] split: sum.splits)
    from split_large_record_concat [OF ys] show ?thesis
      unfolding st' by (simp add: push_current_def)
  next
    case False
    with assms show ?thesis
      by (auto simp: chunk_step_small [OF enc] push_current_def split: if_splits)
  qed
qed

lemma chunk_step_inv:
  assumes step: "chunk_step mb st rec = Inr st'"
    and bytes: "cur_bytes st = utf8_bytes (cur st)"
    and fits: "cur st \<noteq> [] \<longrightarrow> utf8_bytes (cur st) \<le> mb"
    and emitted: "\<forall>c \<in> set (chunks st). P c"
    and small: "\<And>c. c \<noteq> [] \<Longrightarrow> utf8_bytes c \<le> mb \<Longrightarrow> P c"
    and large: "mb < utf8_bytes rec \<Longrightarrow> \<forall>l \<in> set (splitlines rec). P l"
  shows "cur_bytes st' = utf8_bytes (cur st') \<and> (cur st' \<noteq> [] \<longrightarrow> utf8_bytes (cur st') \<le> mb)
         \<and> (\<forall>c \<in> set (chunks st'). P c)"
proof -
  have enc: "encodable rec"
    using step by (rule chunk_step_encodable)
  have pushed: "\<forall>c \<in> set (chunks (push_current st)). P c"
    using emitted fits small [of "cur st"] by (simp add: push_current_def)
  show ?thesis
  proof (cases "mb < utf8_bytes rec")
    case True
    from step obtain ys where ys: "split_large_record mb rec [] = Inr ys"
      and st': "st' = (push_current st)\<lparr>chunks := chunks (push_current st) @ ys\<rparr>"
      by (auto simp: chunk_step_large [OF enc True] split: sum.splits)
    have "\<forall>c \<in> set ys. P c"
      by (rule split_large_record_inv [OF ys large [OF True] small]) simp_all
    with pushed show ?thesis
      unfolding st' using bytes by (auto simp: push_current_def)
  next
    case False
    show ?thesis
    proof (cases "cur_bytes st + utf8_bytes rec > mb \<and> cur st \<noteq> []")
      case True
      with step False have "st' = (push_current st)\<lparr>cur := rec, cur_bytes := utf8_bytes rec\<rparr>"
        by (simp add: chunk_step_small [OF enc])
      with pushed False show ?thesis
        by simp
    next
      case nopush: False
      with step False
      have "st' = st\<lparr>cur := cur st @ rec, cur_bytes := cur_bytes st + utf8_bytes rec\<rparr>"
        by (simp add: chunk_step_small [OF enc])
      with emitted bytes False nopush show ?thesis
        by auto
    qed
  qed
qed

lemma chunk_loop_total:
  "\<forall>r \<in> set recs. encodable r \<Longrightarrow> \<exists>st'. chunk_loop mb recs st = Inr st'"
proof (induction recs arbitrary: st)
  case Nil
  then show ?case by simp
next
  case (Cons rec recs)
  then obtain st1 where "chunk_step mb st rec = Inr st1"
    using chunk_step_total [of rec mb st] by auto
  with Cons show ?case by simp
qed

lemma chunk_loop_encodable:
  "chunk_loop mb recs st = Inr st' \<Longrightarrow> \<forall>r \<in> set recs. encodable r"
  by (induction recs arbitrary: st)
     (auto split: sum.splits dest: chunk_step_encodable)

lemma chunk_loop_concat:
  "chunk_loop mb recs st = Inr st' \<Longrightarrow>
   concat (chunks st') @ cur st' = concat (chunks st) @ cur st @ concat recs"
proof (induction recs arbitrary: st)
  case Nil
  then show ?case by simp
next
  case (Cons rec recs)
  then obtain st1 where step: "chunk_step mb st rec = Inr st1"
    and rest: "chunk_loop mb recs st1 = Inr st'"
    by (auto split: sum.splits)
  show ?case
    using Cons.IH [OF rest] chunk_step_concat [OF step] by simp
qed

lemma chunk_loop_inv:
  assumes "chunk_loop mb recs st = Inr st'"
    and "cur_bytes st = utf8_bytes (cur st)"
    and "cur st \<noteq> [] \<longrightarrow> utf8_bytes (cur st) \<le> mb"
    and "\<forall>c \<in> set (chunks st). P c"
    and "\<And>c. c \<noteq> [] \<Longrightarrow> utf8_bytes c \<le> mb \<Longrightarrow> P c"
    and "\<And>rec l. rec \<in> set recs \<Longrightarrow> mb < utf8_bytes rec \<Longrightarrow> l \<in> set (splitlines rec) \<Longrightarrow> P l"
  shows "cur_bytes st' = utf8_bytes (cur st') \<and> (cur st' \<noteq> [] \<longrightarrow> utf8_bytes (cur st') \<le> mb)
         \<and> (\<forall>c \<in> set (chunks st'). P c)"
  using assms
proof (induction recs arbitrary: st)
  case Nil
  then show ?case by auto
next
  case (Cons rec recs)
  from Cons.prems(1) obtain st1 where step: "chunk_step mb st rec = Inr st1"
    and rest: "chunk_loop mb recs st1 = Inr st'"
    by (auto split: sum.splits)
  have inv1: "cur_bytes st1 = utf8_bytes (cur st1) \<and> (cur st1 \<noteq> [] \<longrightarrow> utf8_bytes (cur st1) \<le> mb)
         \<and> (\<forall>c \<in> set (chunks st1). P c)"
    by (rule chunk_step_inv [OF step Cons.prems(2,3,4,5)]) (auto intro: Cons.prems(6))
  show ?case
  proof (rule Cons.IH [OF rest])
    show "cur_bytes st1 = utf8_bytes (cur st1)"
      and "cur st1 \<noteq> [] \<longrightarrow> utf8_bytes (cur st1) \<le> mb"
      and "\<forall>c \<in> set (chunks st1). P c"
      using inv1 by simp_all
    show "\<And>c. c \<noteq> [] \<Longrightarrow> utf8_bytes c \<le> mb \<Longrightarrow> P c"
      by (rule Cons.prems(5))
    show "\<And>r l. r \<in> set recs \<Longrightarrow> mb < utf8_bytes r \<Longrightarrow> l \<in> set (splitlines r) \<Longrightarrow> P l"
      by (rule Cons.prems(6)) simp_all
  qed
qed

lemma chunk_records_by_size_total:
  assumes "\<forall>r \<in> set records. encodable r"
  shows "\<exists>cs. chunk_records_by_size records mb = Inr cs"
proof -
  obtain st where "chunk_loop mb records \<lparr>chunks = [], cur = [], cur_bytes = 0\<rparr> = Inr st"
    using chunk_loop_total [OF assms] by blast
  then show ?thesis
    by (simp add: chunk_records_by_size_def)
qed

lemma chunk_records_by_size_encodable:
  assumes "chunk_records_by_size records mb = Inr cs"
  shows "\<forall>r \<in> set records. encodable r"
  using assms
  by (auto simp: chunk_records_by_size_def split: sum.splits dest: chunk_loop_encodable)

lemma chunk_records_by_size_concat:
  assumes "chunk_records_by_size records mb = Inr cs"
  shows "concat cs = concat records"
proof -
  from assms obtain st
    where run: "chunk_loop mb records \<lparr>chunks = [], cur = [], cur_bytes = 0\<rparr> = Inr st"
      and cs: "cs = chunks (push_current st)"
    by (auto simp: chunk_records_by_size_def split: sum.splits)
  from chunk_loop_concat [OF run] have "concat (chunks st) @ cur st = concat records"
    by simp
  then show ?thesis
    unfolding cs by (auto simp: push_current_def)
qed

lemma chunk_records_by_size_inv:
  assumes "chunk_records_by_size records mb = Inr cs"
    and "\<And>c. c \<noteq> [] \<Longrightarrow> utf8_bytes c \<le> mb \<Longrightarrow> P c"
    and "\<And>rec l. rec \<in> set records \<Longrightarrow> mb < utf8_bytes rec \<Longrightarrow> l \<in> set (splitlines rec) \<Longrightarrow> P l"
  shows "\<forall>c \<in> set cs. P c"
proof -
  let ?init = "\<lparr>chunks = [], cur = [], cur_bytes = 0\<rparr>"
  from assms(1) obtain st
    where run: "chunk_loop mb records ?init = Inr st"
      and cs: "cs = chunks (push_current st)"
    by (auto simp: chunk_records_by_size_def split: sum.splits)
  have "cur_bytes st = utf8_bytes (cur st) \<and> (cur st \<noteq> [] \<longrightarrow> utf8_bytes (cur st) \<le> mb)
         \<and> (\<forall>c \<in> set (chunks st). P c)"
    by (rule chunk_loop_inv [OF run _ _ _ assms(2) assms(3)]) simp_all
  then show ?thesis
    unfolding cs using assms(2) [of "cur st"] by (auto simp: push_current_def)
qed

lemma chunk_records_by_size_chunks:
  assumes "chunk_records_by_size records mb = Inr cs"
  shows "\<forall>c \<in> set cs. c \<noteq> [] \<and>
           (utf8_bytes c \<le> mb \<or>
            (\<exists>rec \<in> set records. mb < utf8_bytes rec \<and> c \<in> set (splitlines rec)))"
  by (rule chunk_records_by_size_inv [OF assms]) (auto dest: splitlines_nonempty)

lemmas eval_defs = chunk_records_by_size_def chunk_step_def split_large_record_def utf8_len_def
  encodable_def surrogate_def utf8_bytes_def utf8_width_def splitlines_def linebreak_def
  push_current_def ascii_def Let_def

lemma three_records:
  assumes "utf8_len r1 = Inr 400" and "utf8_len r2 = Inr 400" and "utf8_len r3 = Inr 400"
  shows "chunk_records_by_size [r1, r2, r3] 1000 = Inr [r1 @ r2, r3]"
proof -
  from assms have enc: "encodable r1" "encodable r2" "encodable r3"
    and len: "utf8_bytes r1 = 400" "utf8_bytes r2 = 400" "utf8_bytes r3 = 400"
    by (simp_all add: utf8_len_Inr)
  from len have ne: "r1 \<noteq> []" "r2 \<noteq> []" "r3 \<noteq> []"
    by auto
  show ?thesis
    using enc len ne
    by (simp add: chunk_records_by_size_def chunk_step_small push_current_def)
qed

lemma utf8_bytes_replicate: "utf8_bytes (replicate n c) = int n * utf8_width c"
  by (induction n) (simp_all add: utf8_bytes_def algebra_simps)

lemma encodable_replicate: "\<not> surrogate c \<Longrightarrow> encodable (replicate n c)"
  by (simp add: encodable_def)

section \<open>The writer and the empty document: auxiliary facts\<close>

lemma endswith_NL: "endswith s [NL] \<longleftrightarrow> s \<noteq> [] \<and> last s = NL"
proof (cases s rule: rev_cases)
  case Nil
  then show ?thesis by (simp add: endswith_def)
next
  case (snoc ys y)
  then show ?thesis by (simp add: endswith_def)
qed

lemma endswith_NL_NL_snoc: "endswith (s @ [NL]) [NL, NL] \<longleftrightarrow> endswith s [NL]"
proof (cases s rule: rev_cases)
  case Nil
  then show ?thesis by (simp add: endswith_def)
next
  case (snoc ys y)
  then show ?thesis by (auto simp: endswith_def)
qed

lemma file_content_endswith: "endswith (file_content content) [NL]"
  by (simp add: file_content_def endswith_NL)

lemma finditer_from_Nil: "finditer_from [] i = []"
proof -
  have "pat_match_at [] j = None" for j
    by (simp add: pat_match_at_def newline_run_def backtrack.simps)
  then have one: "finditer_from [] (Suc j) = []" for j
    by (subst finditer_from.simps) simp
  show ?thesis
  proof (cases i)
    case 0
    have "finditer_from [] 0 = finditer_from [] (Suc 0)"
      by (subst finditer_from.simps) (simp add: \<open>\<And>j. pat_match_at [] j = None\<close>)
    then show ?thesis using one 0 by simp
  next
    case (Suc j)
    then show ?thesis using one by simp
  qed
qed

lemma find_record_starts_Nil: "find_record_starts [] = []"
  by (simp add: find_record_starts_def finditer_from_Nil startswith_def)

lemma split_into_records_Nil: "split_into_records [] = [[]]"
  by (simp add: split_into_records_def find_record_starts_Nil)

lemma pipeline_Nil: "pipeline [] max_bytes = Inr []"
  by (simp add: pipeline_def split_into_records_Nil eval_defs)

section \<open>The boundary pattern: auxiliary facts\<close>

lemma startswith_iff: "startswith s p \<longleftrightarrow> (\<exists>t. s = p @ t)"
proof
  assume "startswith s p"
  then have "s = p @ drop (length p) s"
    by (metis append_take_drop_id startswith_def)
  then show "\<exists>t. s = p @ t" ..
next
  assume "\<exists>t. s = p @ t"
  then show "startswith s p"
    by (auto simp: startswith_def)
qed

lemma match_id_iff: "match_id s \<longleftrightarrow> (\<exists>c t. s = id_colon @ c # t \<and> unicode_space c)"
proof
  assume m: "match_id s"
  then obtain t where s: "s = id_colon @ t"
    by (auto simp: match_id_def startswith_iff)
  with m have "t \<noteq> []" and "unicode_space (hd t)"
    by (auto simp: match_id_def hd_conv_nth)
  then show "\<exists>c t. s = id_colon @ c # t \<and> unicode_space c"
    using s by (cases t) auto
next
  assume "\<exists>c t. s = id_colon @ c # t \<and> unicode_space c"
  then show "match_id s"
    by (auto simp: match_id_def startswith_def)
qed

lemma group_at_iff:
  "group_at md j \<longleftrightarrow> (\<exists>c t. drop j md = delim @ id_colon @ c # t \<and> unicode_space c)"
proof
  assume g: "group_at md j"
  then obtain t where t: "drop j md = delim @ t"
    by (auto simp: group_at_def startswith_iff)
  have "drop (j + 4) md = drop 4 (drop j md)"
    by (simp add: add.commute)
  also have "\<dots> = t"
    by (simp add: t)
  finally have "match_id t"
    using g by (simp add: group_at_def)
  then show "\<exists>c t. drop j md = delim @ id_colon @ c # t \<and> unicode_space c"
    using t by (auto simp: match_id_iff)
next
  assume "\<exists>c t. drop j md = delim @ id_colon @ c # t \<and> unicode_space c"
  then obtain c t where d: "drop j md = delim @ id_colon @ c # t" and c: "unicode_space c"
    by blast
  have "drop (j + 4) md = drop 4 (drop j md)"
    by (simp add: add.commute)
  also have "\<dots> = id_colon @ c # t"
    by (simp add: d)
  finally show "group_at md j"
    using d c by (auto simp: group_at_def startswith_iff match_id_iff)
qed

lemma drop_eq_nth:
  assumes "drop j md = xs @ t" and "k < length xs"
  shows "md ! (j + k) = xs ! k" and "j + k < length md"
proof -
  have "length (drop j md) = length xs + length t"
    by (simp add: assms(1))
  then show len: "j + k < length md"
    using assms(2) by simp
  have "md ! (j + k) = drop j md ! k"
    using len by simp
  then show "md ! (j + k) = xs ! k"
    using assms by (simp add: nth_append)
qed

lemma group_at_nth:
  assumes "group_at md j"
  shows "j + 8 \<le> length md" and "md ! j = 45" and "md ! (j + 1) = 45" and "md ! (j + 2) = 45"
    and "md ! (j + 3) = NL" and "md ! (j + 4) = 105" and "md ! (j + 5) = 100"
proof -
  from assms obtain c t where d: "drop j md = (delim @ id_colon @ [c]) @ t"
    by (auto simp: group_at_iff)
  have "j + 7 < length md"
    using drop_eq_nth(2) [OF d, of 7] by simp
  then show "j + 8 \<le> length md" by simp
  show "md ! j = 45" using drop_eq_nth(1) [OF d, of 0] by simp
  show "md ! (j + 1) = 45" using drop_eq_nth(1) [OF d, of 1] by simp
  show "md ! (j + 2) = 45" using drop_eq_nth(1) [OF d, of 2] by simp
  show "md ! (j + 3) = NL" using drop_eq_nth(1) [OF d, of 3] by simp
  show "md ! (j + 4) = 105" using drop_eq_nth(1) [OF d, of 4] by simp
  show "md ! (j + 5) = 100" using drop_eq_nth(1) [OF d, of 5] by simp
qed

lemma newline_run_nth: "k < newline_run md i \<Longrightarrow> md ! (i + k) = NL \<and> i + k < length md"
proof -
  assume k: "k < newline_run md i"
  let ?run = "takeWhile (\<lambda>c. c = NL) (drop i md)"
  have "length ?run \<le> length (drop i md)"
    by (rule length_takeWhile_le)
  with k have len: "i + k < length md"
    by (simp add: newline_run_def)
  have "?run ! k = drop i md ! k"
    using k by (simp add: newline_run_def takeWhile_nth)
  moreover have "?run ! k \<in> set ?run"
    using k by (simp add: newline_run_def)
  then have "?run ! k = NL"
    by (auto dest: set_takeWhileD)
  ultimately show ?thesis
    using len by simp
qed

lemma newline_run_two:
  assumes "i + 2 < length md" and "md ! i = NL" and "md ! (i + 1) = NL" and "md ! (i + 2) \<noteq> NL"
  shows "newline_run md i = 2"
proof -
  have "drop i md = md ! i # md ! (i + 1) # md ! (i + 2) # drop (i + 3) md"
    using assms(1) by (simp add: Cons_nth_drop_Suc numeral_3_eq_3 numeral_2_eq_2)
  then show ?thesis
    using assms by (simp add: newline_run_def)
qed

lemma backtrack_run:
  assumes "\<forall>k < n. md ! (i + k) = NL"
  shows "backtrack md i n = (if 2 \<le> n \<and> group_at md (i + n) then Some (i + n) else None)"
  using assms
proof (induction n)
  case 0
  then show ?case
    by (subst backtrack.simps) simp
next
  case (Suc n)
  have prev: "\<not> group_at md (i + n)" if "0 < Suc n"
    using Suc.prems group_at_nth(2) [of md "i + n"] by fastforce
  have "backtrack md i n = None"
    using Suc.IH Suc.prems prev by simp
  then show ?case
    by (subst backtrack.simps) simp
qed

lemma pat_match_at_iff:
  "pat_match_at md i = Some g \<longleftrightarrow>
     g = i + newline_run md i \<and> 2 \<le> newline_run md i \<and> group_at md g"
proof -
  have "\<forall>k < newline_run md i. md ! (i + k) = NL"
    by (simp add: newline_run_nth)
  then show ?thesis
    unfolding pat_match_at_def by (subst backtrack_run) auto
qed

lemma set_finditer_from:
  "set (finditer_from md i) =
     {j. i + 2 \<le> j \<and> md ! (j - 1) = NL \<and> md ! (j - 2) = NL \<and> group_at md j}"
proof (induction md i rule: finditer_from.induct)
  case (1 md i)
  let ?S = "\<lambda>i. {j. i + 2 \<le> j \<and> md ! (j - 1) = NL \<and> md ! (j - 2) = NL \<and> group_at md j}"
  show ?case
  proof (cases "length md < i")
    case True
    have "?S i = {}"
      using True group_at_nth(1) [of md] by fastforce
    then show ?thesis
      using True by (subst finditer_from.simps) simp
  next
    case False
    show ?thesis
    proof (cases "pat_match_at md i")
      case None
      have IH: "set (finditer_from md (i + 1)) = ?S (i + 1)"
        using "1.IH" False None by simp
      have no: "\<not> (md ! i = NL \<and> md ! (i + 1) = NL \<and> group_at md (i + 2))"
      proof
        assume h: "md ! i = NL \<and> md ! (i + 1) = NL \<and> group_at md (i + 2)"
        then have "i + 2 < length md" and "md ! (i + 2) \<noteq> NL"
          using group_at_nth(1,2) [of md "i + 2"] by auto
        then have "newline_run md i = 2"
          using h newline_run_two by simp
        then have "pat_match_at md i = Some (i + 2)"
          using h by (simp add: pat_match_at_iff)
        with None show False by simp
      qed
      have "?S i = ?S (i + 1)"
      proof (rule set_eqI)
        fix j
        show "j \<in> ?S i \<longleftrightarrow> j \<in> ?S (i + 1)"
        proof (cases "j = i + 2")
          case True
          then show ?thesis using no by simp
        next
          case False
          then show ?thesis by auto
        qed
      qed
      moreover have "finditer_from md i = finditer_from md (i + 1)"
        using False None by (subst finditer_from.simps) simp
      ultimately show ?thesis
        using IH by simp
    next
      case (Some g)
      define n where "n = newline_run md i"
      from Some have g: "g = i + n" and n: "2 \<le> n" and grp: "group_at md g"
        by (auto simp: pat_match_at_iff n_def)
      have run: "md ! (i + k) = NL" if "k < n" for k
        using that newline_run_nth [of k md i] by (simp add: n_def)
      note hdr = group_at_nth [OF grp]
      have IH: "set (finditer_from md (g + 4)) = ?S (g + 4)"
        using "1.IH" False Some by simp
      have "?S i = insert g (?S (g + 4))"
      proof (rule set_eqI)
        fix j
        show "j \<in> ?S i \<longleftrightarrow> j \<in> insert g (?S (g + 4))"
        proof
          assume j: "j \<in> ?S i"
          then have at: "md ! j = 45" and b1: "md ! (j - 1) = NL" and b2: "md ! (j - 2) = NL"
            and lo: "i + 2 \<le> j"
            using group_at_nth(2) [of md j] by auto
          consider "j < g" | "j = g" | "j = g + 1" | "j = g + 2" | "j = g + 3"
            | "j = g + 4" | "j = g + 5" | "g + 6 \<le> j"
            by arith
          then show "j \<in> insert g (?S (g + 4))"
          proof cases
            case 1
            then have "j - i < n" using g lo by simp
            from run [OF this] lo have "md ! j = NL" by simp
            with at show ?thesis by simp
          next
            case 2
            then show ?thesis by simp
          next
            case 3
            with b1 hdr(2) show ?thesis by simp
          next
            case 4
            with b1 hdr(3) show ?thesis by simp
          next
            case 5
            with b1 hdr(4) show ?thesis by simp
          next
            case 6
            with b2 hdr(4) show ?thesis by simp
          next
            case 7
            with b1 hdr(6) show ?thesis by (simp add: add.commute)
          next
            case 8
            with j show ?thesis by simp
          qed
        next
          assume "j \<in> insert g (?S (g + 4))"
          then consider "j = g" | "j \<in> ?S (g + 4)"
            by blast
          then show "j \<in> ?S i"
          proof cases
            case 1
            have lt: "n - 1 < n" "n - 2 < n"
              using n by simp_all
            have "md ! (i + (n - 1)) = NL" and "md ! (i + (n - 2)) = NL"
              using run [OF lt(1)] run [OF lt(2)] by blast+
            moreover have "g - 1 = i + (n - 1)" and "g - 2 = i + (n - 2)"
              using g n by simp_all
            ultimately have "md ! (g - 1) = NL" and "md ! (g - 2) = NL"
              by simp_all
            moreover have "i + 2 \<le> g"
              using g n by simp
            ultimately show ?thesis
              using 1 grp by simp
          next
            case 2
            then show ?thesis using g by simp
          qed
        qed
      qed
      moreover have "finditer_from md i = g # finditer_from md (g + 4)"
        using False Some by (subst finditer_from.simps) simp
      ultimately show ?thesis
        using IH by simp
    qed
  qed
qed

lemma match_id_take: "4 \<le> n \<Longrightarrow> match_id (take n s) = match_id s"
  by (auto simp: match_id_def startswith_def min_def)

lemma head_test: "startswith md delim \<and> match_id (slice md 4 80) \<longleftrightarrow> group_at md 0"
  by (simp add: group_at_def slice_def match_id_take)

lemma set_find_record_starts:
  "set (find_record_starts md) =
     {j. group_at md j \<and> (j = 0 \<or> (2 \<le> j \<and> md ! (j - 1) = NL \<and> md ! (j - 2) = NL))}"
proof -
  have "set (find_record_starts md) = (if group_at md 0 then {0} else {}) \<union> set (finditer_from md 0)"
    using head_test [of md] by (simp add: find_record_starts_def Let_def)
  then show ?thesis
    unfolding set_finditer_from by auto
qed

lemma sorted_find_record_starts: "sorted (find_record_starts md)"
  by (simp add: find_record_starts_def Let_def)

lemma distinct_find_record_starts: "distinct (find_record_starts md)"
  by (simp add: find_record_starts_def Let_def)

lemma find_record_starts_bound: "j \<in> set (find_record_starts md) \<Longrightarrow> j + 8 \<le> length md"
  using group_at_nth(1) [of md j] by (simp add: set_find_record_starts)

lemma concat_records_from:
  "sorted (st # starts) \<Longrightarrow> \<forall>x \<in> set (st # starts). x \<le> length md \<Longrightarrow>
   concat (records_from md (st # starts)) = drop st md"
proof (induction starts arbitrary: st)
  case Nil
  then show ?case by (simp add: slice_def)
next
  case (Cons nxt starts)
  then have le: "st \<le> nxt" and IH: "concat (records_from md (nxt # starts)) = drop nxt md"
    by simp_all
  have "drop nxt md = drop (nxt - st) (drop st md)"
    using le by simp
  then have "slice md st nxt @ drop nxt md = drop st md"
    unfolding slice_def by (simp only: append_take_drop_id)
  then show ?case
    using IH by simp
qed

lemma concat_split_into_records:
  "concat (split_into_records md) =
     (if find_record_starts md = [] then md else drop (hd (find_record_starts md)) md)"
proof (cases "find_record_starts md")
  case Nil
  then show ?thesis by (simp add: split_into_records_def)
next
  case (Cons st starts)
  have "sorted (st # starts)"
    using sorted_find_record_starts [of md] Cons by simp
  moreover have "\<forall>x \<in> set (st # starts). x \<le> length md"
    using find_record_starts_bound [of _ md] Cons by fastforce
  ultimately have "concat (records_from md (st # starts)) = drop st md"
    by (rule concat_records_from)
  then show ?thesis
    using Cons by (simp add: split_into_records_def)
qed

lemma pipeline_concat:
  assumes "pipeline md mb = Inr cs"
  shows "concat cs = (if find_record_starts md = [] then md else drop (hd (find_record_starts md)) md)"
  using chunk_records_by_size_concat [of "split_into_records md" mb cs] assms
  by (simp add: pipeline_def concat_split_into_records)

lemma pipeline_total:
  assumes "encodable md"
  shows "\<exists>cs. pipeline md mb = Inr cs"
proof -
  have "encodable (concat (split_into_records md))"
    using assms by (auto simp: concat_split_into_records encodable_def dest: in_set_dropD)
  then have "\<forall>r \<in> set (split_into_records md). encodable r"
    by (simp add: encodable_concat)
  then show ?thesis
    unfolding pipeline_def by (rule chunk_records_by_size_total)
qed

lemma chunk_single_small:
  assumes "encodable md" and "utf8_bytes md \<le> mb" and "md \<noteq> []"
  shows "chunk_records_by_size [md] mb = Inr [md]"
  using assms by (simp add: chunk_records_by_size_def chunk_step_small push_current_def)

lemma chunk_single_large:
  assumes "encodable md" and "mb < utf8_bytes md"
  shows "chunk_records_by_size [md] mb = split_large_record mb md []"
  using assms
  by (auto simp: chunk_records_by_size_def chunk_step_large push_current_def split: sum.splits)

section \<open>The chunker and its budget\<close>

text \<open>
  Claim C3. Whenever \<open>chunk_records_by_size\<close> returns chunks, their concatenation is
  the concatenation of the records (the order is the records' order and no byte is
  duplicated or dropped), every chunk has a UTF-8 length, and a chunk longer than
  \<open>max_bytes\<close> is a single line of a record that is itself longer than \<open>max_bytes\<close>;
  every other chunk is within the budget.
\<close>

theorem chunks_respect_budget:
  assumes "chunk_records_by_size records max_bytes = Inr cs"
  shows "concat cs = concat records \<and>
         (\<forall>c \<in> set cs. utf8_len c = Inr (utf8_bytes c) \<and>
            (utf8_bytes c \<le> max_bytes \<or>
             (\<exists>rec \<in> set records. utf8_len rec = Inr (utf8_bytes rec) \<and>
                max_bytes < utf8_bytes rec \<and> c \<in> set (splitlines rec))))"
proof -
  have cat: "concat cs = concat records"
    using assms by (rule chunk_records_by_size_concat)
  have recs: "\<forall>r \<in> set records. encodable r"
    using assms by (rule chunk_records_by_size_encodable)
  then have "encodable (concat cs)"
    unfolding cat by (simp add: encodable_concat)
  then have enc: "\<forall>c \<in> set cs. encodable c"
    by (simp add: encodable_concat)
  show ?thesis
    using cat enc recs chunk_records_by_size_chunks [OF assms]
    by (fastforce simp: utf8_len_def)
qed

theorem chunks_respect_budget_witness:
  "chunk_records_by_size [ascii ''ab\<newline>cd\<newline>'', ascii ''efghij\<newline>k''] 4
     = Inr [ascii ''ab\<newline>'', ascii ''cd\<newline>'', ascii ''efghij\<newline>'', ascii ''k'']
   \<and> concat [ascii ''ab\<newline>'', ascii ''cd\<newline>'', ascii ''efghij\<newline>'', ascii ''k'']
     = concat [ascii ''ab\<newline>cd\<newline>'', ascii ''efghij\<newline>k'']
   \<and> utf8_bytes (ascii ''ab\<newline>'') \<le> 4
   \<and> 4 < utf8_bytes (ascii ''efghij\<newline>'')
   \<and> ascii ''efghij\<newline>'' \<in> set (splitlines (ascii ''efghij\<newline>k''))"
proof -
  have run: "chunk_records_by_size [ascii ''ab\<newline>cd\<newline>'', ascii ''efghij\<newline>k''] 4
     = Inr [ascii ''ab\<newline>'', ascii ''cd\<newline>'', ascii ''efghij\<newline>'', ascii ''k'']"
    by (simp add: eval_defs)
  have small: "utf8_bytes (ascii ''ab\<newline>'') \<le> 4"
    by (simp add: eval_defs)
  have large: "4 < utf8_bytes (ascii ''efghij\<newline>'')"
    by (simp add: eval_defs)
  have line: "ascii ''efghij\<newline>'' \<in> set (splitlines (ascii ''efghij\<newline>k''))"
    by (simp add: eval_defs)
  from chunks_respect_budget [OF run] run small large line show ?thesis
    by simp
qed

text \<open>
  Claim C4. For a record whose UTF-8 length exceeds the budget, the loop body returns
  (it raises nothing) for every budget and every state: it flushes a non-empty
  accumulator first, leaves the accumulator empty, and appends sub-chunks to the output
  whose concatenation is the record; every sub-chunk is non-empty and is within the
  budget or is one single line of the record.
\<close>

theorem oversized_record_split_by_lines:
  assumes "utf8_len rec = Inr rec_b" and "rec_b > max_bytes"
  shows "\<exists>subs. chunk_step max_bytes st rec =
            Inr ((push_current st)\<lparr>chunks := chunks (push_current st) @ subs\<rparr>)
         \<and> chunks (push_current st) = (if cur st \<noteq> [] then chunks st @ [cur st] else chunks st)
         \<and> concat subs = rec
         \<and> (\<forall>c \<in> set subs. c \<noteq> [] \<and> utf8_len c = Inr (utf8_bytes c) \<and>
              (utf8_bytes c \<le> max_bytes \<or> c \<in> set (splitlines rec)))"
proof -
  from assms have enc: "encodable rec" and big: "max_bytes < utf8_bytes rec"
    by (simp_all add: utf8_len_Inr)
  obtain subs where subs: "split_large_record max_bytes rec [] = Inr subs"
    using split_large_record_total [OF enc] by blast
  have step: "chunk_step max_bytes st rec =
      Inr ((push_current st)\<lparr>chunks := chunks (push_current st) @ subs\<rparr>)"
    by (simp add: chunk_step_large [OF enc big] subs)
  have cat: "concat subs = rec"
    using split_large_record_concat [OF subs] by simp
  have "encodable (concat subs)"
    unfolding cat by (rule enc)
  then have encs: "\<forall>c \<in> set subs. encodable c"
    by (simp add: encodable_concat)
  have "\<forall>c \<in> set subs. c \<noteq> [] \<and> (utf8_bytes c \<le> max_bytes \<or> c \<in> set (splitlines rec))"
    by (rule split_large_record_inv [OF subs]) (auto dest: splitlines_nonempty)
  with encs have each: "\<forall>c \<in> set subs. c \<noteq> [] \<and> utf8_len c = Inr (utf8_bytes c) \<and>
              (utf8_bytes c \<le> max_bytes \<or> c \<in> set (splitlines rec))"
    by (simp add: utf8_len_def)
  show ?thesis
    using step cat each push_current_chunks [of st] by blast
qed

theorem oversized_record_split_by_lines_witness:
  "utf8_len (ascii ''ab\<newline>cd'') = Inr 5 \<and> (5::int) > 0
   \<and> chunk_step 0 \<lparr>chunks = [], cur = ascii ''x'', cur_bytes = 1\<rparr> (ascii ''ab\<newline>cd'')
       = Inr \<lparr>chunks = [ascii ''x'', ascii ''ab\<newline>'', ascii ''cd''], cur = [], cur_bytes = 0\<rparr>"
proof -
  have len: "utf8_len (ascii ''ab\<newline>cd'') = Inr 5"
    by (simp add: eval_defs)
  have step: "chunk_step 0 \<lparr>chunks = [], cur = ascii ''x'', cur_bytes = 1\<rparr> (ascii ''ab\<newline>cd'')
       = Inr \<lparr>chunks = [ascii ''x'', ascii ''ab\<newline>'', ascii ''cd''], cur = [], cur_bytes = 0\<rparr>"
    by (simp add: eval_defs)
  from oversized_record_split_by_lines [OF len, of 0 "\<lparr>chunks = [], cur = ascii ''x'', cur_bytes = 1\<rparr>"]
    len step show ?thesis
    by simp
qed

text \<open>
  Claim C5. A record that fits the budget is appended to the accumulator, unless that
  would exceed the budget while the accumulator is not empty: then the accumulator is
  flushed and the record starts the new one. Three records of 400 bytes with a budget
  of 1000 give the chunks \<open>r1 + r2\<close> and \<open>r3\<close>, not \<open>r1\<close> and \<open>r2 + r3\<close>.
\<close>

theorem greedy_left_to_right_packing:
  "(utf8_len rec = Inr rec_b \<and> \<not> rec_b > max_bytes \<longrightarrow>
      chunk_step max_bytes st rec =
        Inr (if cur_bytes st + rec_b > max_bytes \<and> cur st \<noteq> []
             then st\<lparr>chunks := chunks st @ [cur st], cur := rec, cur_bytes := rec_b\<rparr>
             else st\<lparr>cur := cur st @ rec, cur_bytes := cur_bytes st + rec_b\<rparr>))
   \<and> (utf8_len r1 = Inr 400 \<and> utf8_len r2 = Inr 400 \<and> utf8_len r3 = Inr 400 \<longrightarrow>
        chunk_records_by_size [r1, r2, r3] 1000 = Inr [r1 @ r2, r3]
        \<and> chunk_records_by_size [r1, r2, r3] 1000 \<noteq> Inr [r1, r2 @ r3])"
proof -
  have step: "chunk_step max_bytes st rec =
        Inr (if cur_bytes st + rec_b > max_bytes \<and> cur st \<noteq> []
             then st\<lparr>chunks := chunks st @ [cur st], cur := rec, cur_bytes := rec_b\<rparr>
             else st\<lparr>cur := cur st @ rec, cur_bytes := cur_bytes st + rec_b\<rparr>)"
    if "utf8_len rec = Inr rec_b" and "\<not> rec_b > max_bytes"
    using that by (simp add: chunk_step_def push_current_def)
  have three: "chunk_records_by_size [r1, r2, r3] 1000 = Inr [r1 @ r2, r3]
        \<and> chunk_records_by_size [r1, r2, r3] 1000 \<noteq> Inr [r1, r2 @ r3]"
    if "utf8_len r1 = Inr 400" and "utf8_len r2 = Inr 400" and "utf8_len r3 = Inr 400"
  proof -
    from that(2) have "r2 \<noteq> []"
      by (auto simp: utf8_len_Inr)
    then show ?thesis
      using three_records [OF that] by simp
  qed
  from step three show ?thesis
    by blast
qed

theorem greedy_left_to_right_packing_witness:
  "utf8_len (replicate 400 97) = Inr 400 \<and> utf8_len (replicate 400 98) = Inr 400
   \<and> utf8_len (replicate 400 99) = Inr 400 \<and> \<not> (400::int) > 1000
   \<and> chunk_step 1000 \<lparr>chunks = [], cur = replicate 400 97 @ replicate 400 98, cur_bytes = 800\<rparr>
        (replicate 400 99)
      = Inr \<lparr>chunks = [replicate 400 97 @ replicate 400 98], cur = replicate 400 99, cur_bytes = 400\<rparr>
   \<and> chunk_records_by_size [replicate 400 97, replicate 400 98, replicate 400 99] 1000
      = Inr [replicate 400 97 @ replicate 400 98, replicate 400 99]"
proof -
  have len: "utf8_len (replicate 400 c) = Inr 400" if "c < 128" for c
    using that
    by (simp add: utf8_len_def utf8_bytes_replicate encodable_replicate surrogate_def utf8_width_def)
  have a: "utf8_len (replicate 400 97) = Inr 400"
    and b: "utf8_len (replicate 400 98) = Inr 400"
    and c: "utf8_len (replicate 400 99) = Inr 400"
    by (simp_all add: len)
  have ne: "replicate 400 (97::nat) @ replicate 400 98 \<noteq> []"
    by simp
  from greedy_left_to_right_packing
         [of "replicate 400 99" 400 1000
             "\<lparr>chunks = [], cur = replicate 400 97 @ replicate 400 98, cur_bytes = 800\<rparr>"
             "replicate 400 97" "replicate 400 98" "replicate 400 99"]
    a b c ne show ?thesis
    by simp
qed

section \<open>The written files\<close>

text \<open>
  Claim C7, as amended. Every file the writer produces ends with a newline: the writer
  appends one newline to a chunk that does not end with one, and then the file ends with
  exactly one; a chunk that already ends with a newline is written unchanged, with every
  trailing newline it has.
\<close>

theorem written_file_ends_with_newline:
  "(\<forall>f \<in> set (written_files cs). endswith (snd f) [NL])
   \<and> map snd (written_files cs) = map file_content cs
   \<and> endswith (file_content content) [NL]
   \<and> (endswith content [NL] \<longrightarrow> file_content content = content)
   \<and> (\<not> endswith content [NL] \<longrightarrow>
        file_content content = content @ [NL] \<and> spec_single_trailing_newline (file_content content))"
proof -
  have "length [1..<Suc (length cs)] = length (map file_content cs)"
    by (simp only: length_upt length_map diff_Suc_1)
  then have snd_files: "map snd (written_files cs) = map file_content cs"
    unfolding written_files_def by (rule map_snd_zip)
  have "\<forall>c \<in> set (map snd (written_files cs)). endswith c [NL]"
    unfolding snd_files by (simp add: file_content_endswith)
  then have all: "\<forall>f \<in> set (written_files cs). endswith (snd f) [NL]"
    by simp
  have keep: "endswith content [NL] \<longrightarrow> file_content content = content"
    by (simp add: file_content_def)
  have add: "\<not> endswith content [NL] \<longrightarrow>
        file_content content = content @ [NL] \<and> spec_single_trailing_newline (file_content content)"
    by (simp add: file_content_def spec_single_trailing_newline_def endswith_NL_NL_snoc endswith_NL)
  show ?thesis
    using all snd_files file_content_endswith keep add by blast
qed

theorem written_file_ends_with_newline_witness:
  "written_files [ascii ''a'', ascii ''b\<newline>\<newline>'']
     = [(1, ascii ''a\<newline>''), (2, ascii ''b\<newline>\<newline>'')]
   \<and> \<not> endswith (ascii ''a'') [NL]
   \<and> file_content (ascii ''a'') = ascii ''a\<newline>''
   \<and> spec_single_trailing_newline (file_content (ascii ''a''))
   \<and> endswith (ascii ''b\<newline>\<newline>'') [NL]
   \<and> file_content (ascii ''b\<newline>\<newline>'') = ascii ''b\<newline>\<newline>''"
proof -
  have files: "written_files [ascii ''a'', ascii ''b\<newline>\<newline>'']
     = [(1, ascii ''a\<newline>''), (2, ascii ''b\<newline>\<newline>'')]"
    by (simp add: written_files_def file_content_def endswith_def ascii_def upt_rec)
  have a: "\<not> endswith (ascii ''a'') [NL]"
    by (simp add: endswith_def ascii_def)
  have b: "endswith (ascii ''b\<newline>\<newline>'') [NL]"
    by (simp add: endswith_def ascii_def)
  have a': "file_content (ascii ''a'') = ascii ''a\<newline>''"
    by (simp add: file_content_def endswith_def ascii_def)
  have "spec_single_trailing_newline (file_content (ascii ''a''))"
    using written_file_ends_with_newline [of "[]" "ascii ''a''"] a by blast
  moreover have "file_content (ascii ''b\<newline>\<newline>'') = ascii ''b\<newline>\<newline>''"
    using written_file_ends_with_newline [of "[]" "ascii ''b\<newline>\<newline>''"] b by blast
  ultimately show ?thesis
    using files a b a' by blast
qed

text \<open>
  Claim C7 as it is stated fails on the chunk \<open>"b\n\n"\<close>: the file written for it
  ends with two newlines.
\<close>

theorem single_trailing_newline_counterexample:
  "file_content (ascii ''b\<newline>\<newline>'') = ascii ''b\<newline>\<newline>''
   \<and> \<not> spec_single_trailing_newline (file_content (ascii ''b\<newline>\<newline>''))"
  by (simp add: file_content_def spec_single_trailing_newline_def endswith_def ascii_def)

text \<open>
  Claim C10. No chunk that \<open>chunk_records_by_size\<close> returns is the empty string. The
  empty document is one empty record, gives no chunk for any budget, and so no part file
  is written.
\<close>

theorem chunks_are_never_empty:
  "(chunk_records_by_size records max_bytes = Inr cs \<longrightarrow> (\<forall>c \<in> set cs. c \<noteq> []))
   \<and> split_into_records [] = [[]]
   \<and> pipeline [] max_bytes = Inr []
   \<and> written_files [] = []"
proof -
  have "\<forall>c \<in> set cs. c \<noteq> []" if "chunk_records_by_size records max_bytes = Inr cs"
    using chunk_records_by_size_chunks [OF that] by blast
  then show ?thesis
    by (simp add: split_into_records_Nil pipeline_Nil written_files_def)
qed

theorem chunks_are_never_empty_witness:
  "chunk_records_by_size [[], ascii ''ab\<newline>\<newline>'', []] 2 = Inr [ascii ''ab\<newline>'', [NL]]
   \<and> ascii ''ab\<newline>'' \<noteq> [] \<and> [NL] \<noteq> []
   \<and> pipeline [] 0 = Inr []"
proof -
  have run: "chunk_records_by_size [[], ascii ''ab\<newline>\<newline>'', []] 2 = Inr [ascii ''ab\<newline>'', [NL]]"
    by (simp add: eval_defs)
  have "\<forall>c \<in> set [ascii ''ab\<newline>'', [NL]]. c \<noteq> []"
    using chunks_are_never_empty [of "[[], ascii ''ab\<newline>\<newline>'', []]" 2 "[ascii ''ab\<newline>'', [NL]]"] run
    by blast
  then have "ascii ''ab\<newline>'' \<noteq> [] \<and> [NL] \<noteq> []"
    by simp
  moreover have "pipeline [] 0 = Inr []"
    using chunks_are_never_empty [of "[]" 0 "[]"] by blast
  ultimately show ?thesis
    using run by blast
qed

section \<open>Record boundaries and the pipeline\<close>

text \<open>
  Claim C2, as amended. \<open>find_record_starts\<close> returns, sorted and without duplicates,
  exactly the positions where the header marker (\<open>---\<close>, a newline, \<open>id:\<close> and a
  whitespace character) begins and that are offset 0 or come right after two newline
  characters: a run of two or more newlines, which is one blank line after a line that
  is terminated. Offset 0 is returned exactly when the document opens with the marker,
  every start in the specification's sense (two blank lines) is returned, and the
  example document splits into its two records.
\<close>

theorem record_starts_follow_newline_runs:
  "set (find_record_starts md) =
     {j. group_at md j \<and> (j = 0 \<or> (2 \<le> j \<and> md ! (j - 1) = NL \<and> md ! (j - 2) = NL))}
   \<and> sorted (find_record_starts md) \<and> distinct (find_record_starts md)
   \<and> (0 \<in> set (find_record_starts md) \<longleftrightarrow> startswith md delim \<and> match_id (drop 4 md))
   \<and> {j. spec_record_start md j} \<subseteq> set (find_record_starts md)
   \<and> split_into_records (ascii ''---\<newline>id: 1\<newline>foo\<newline>\<newline>\<newline>---\<newline>id: 2\<newline>bar\<newline>'')
       = [ascii ''---\<newline>id: 1\<newline>foo\<newline>\<newline>\<newline>'', ascii ''---\<newline>id: 2\<newline>bar\<newline>'']"
proof -
  have zero: "0 \<in> set (find_record_starts md) \<longleftrightarrow> startswith md delim \<and> match_id (drop 4 md)"
    by (simp add: set_find_record_starts group_at_def)
  have spec: "{j. spec_record_start md j} \<subseteq> set (find_record_starts md)"
    by (auto simp: set_find_record_starts spec_record_start_def spec_blank_line_def)
  have starts: "find_record_starts (ascii ''---\<newline>id: 1\<newline>foo\<newline>\<newline>\<newline>---\<newline>id: 2\<newline>bar\<newline>'') = [0, 16]"
    by code_simp
  have example: "split_into_records (ascii ''---\<newline>id: 1\<newline>foo\<newline>\<newline>\<newline>---\<newline>id: 2\<newline>bar\<newline>'')
       = [ascii ''---\<newline>id: 1\<newline>foo\<newline>\<newline>\<newline>'', ascii ''---\<newline>id: 2\<newline>bar\<newline>'']"
    unfolding split_into_records_def starts by (simp add: slice_def ascii_def)
  show ?thesis
    using set_find_record_starts [of md] sorted_find_record_starts [of md]
      distinct_find_record_starts [of md] zero spec example
    by blast
qed

text \<open>
  Claim C2 as it is stated fails on \<open>"x\n\n---\nid: 1\n"\<close>: offset 3 is returned, and
  only one blank line precedes it.
\<close>

theorem two_blank_lines_counterexample:
  "find_record_starts (ascii ''x\<newline>\<newline>---\<newline>id: 1\<newline>'') = [3]
   \<and> \<not> spec_record_start (ascii ''x\<newline>\<newline>---\<newline>id: 1\<newline>'') 3"
proof -
  have "find_record_starts (ascii ''x\<newline>\<newline>---\<newline>id: 1\<newline>'') = [3]"
    by code_simp
  moreover have "\<not> spec_record_start (ascii ''x\<newline>\<newline>---\<newline>id: 1\<newline>'') 3"
    by (simp add: spec_record_start_def spec_blank_line_def ascii_def)
  ultimately show ?thesis ..
qed

text \<open>
  Claim C9. When \<open>find_record_starts\<close> finds a boundary, the records concatenate to the
  document from the first boundary on: the text before the first boundary is in no
  record.
\<close>

theorem records_cover_suffix_from_first_start:
  assumes "find_record_starts md \<noteq> []"
  shows "concat (split_into_records md) = drop (hd (find_record_starts md)) md
         \<and> take (hd (find_record_starts md)) md @ concat (split_into_records md) = md
         \<and> length (concat (split_into_records md)) = length md - hd (find_record_starts md)"
  using assms by (simp add: concat_split_into_records)

theorem records_cover_suffix_from_first_start_witness:
  "find_record_starts (ascii ''x\<newline>\<newline>---\<newline>id: 1\<newline>'') = [3]
   \<and> split_into_records (ascii ''x\<newline>\<newline>---\<newline>id: 1\<newline>'') = [ascii ''---\<newline>id: 1\<newline>'']
   \<and> concat (split_into_records (ascii ''x\<newline>\<newline>---\<newline>id: 1\<newline>''))
       = drop 3 (ascii ''x\<newline>\<newline>---\<newline>id: 1\<newline>'')"
proof -
  have starts: "find_record_starts (ascii ''x\<newline>\<newline>---\<newline>id: 1\<newline>'') = [3]"
    by code_simp
  have recs: "split_into_records (ascii ''x\<newline>\<newline>---\<newline>id: 1\<newline>'') = [ascii ''---\<newline>id: 1\<newline>'']"
    unfolding split_into_records_def starts by (simp add: slice_def ascii_def)
  have "find_record_starts (ascii ''x\<newline>\<newline>---\<newline>id: 1\<newline>'') \<noteq> []"
    by (simp add: starts)
  from records_cover_suffix_from_first_start [OF this]
  have "concat (split_into_records (ascii ''x\<newline>\<newline>---\<newline>id: 1\<newline>''))
       = drop 3 (ascii ''x\<newline>\<newline>---\<newline>id: 1\<newline>'')"
    by (simp add: starts)
  with starts recs show ?thesis
    by blast
qed

text \<open>
  Claim C1 on the document \<open>"intro\n\n---\nid: 1\nhi\n"\<close> with a budget of 1 MiB: the
  only boundary is offset 7, the only chunk is the record that starts there, and the
  chunks do not concatenate to the document: \<open>"intro\n\n"\<close> is lost.
\<close>

theorem preamble_is_lost:
  "find_record_starts (ascii ''intro\<newline>\<newline>---\<newline>id: 1\<newline>hi\<newline>'') = [7]
   \<and> pipeline (ascii ''intro\<newline>\<newline>---\<newline>id: 1\<newline>hi\<newline>'') 1048576
       = Inr [ascii ''---\<newline>id: 1\<newline>hi\<newline>'']
   \<and> concat [ascii ''---\<newline>id: 1\<newline>hi\<newline>''] \<noteq> ascii ''intro\<newline>\<newline>---\<newline>id: 1\<newline>hi\<newline>''"
proof -
  have starts: "find_record_starts (ascii ''intro\<newline>\<newline>---\<newline>id: 1\<newline>hi\<newline>'') = [7]"
    by code_simp
  have recs: "split_into_records (ascii ''intro\<newline>\<newline>---\<newline>id: 1\<newline>hi\<newline>'')
      = [ascii ''---\<newline>id: 1\<newline>hi\<newline>'']"
    unfolding split_into_records_def starts by (simp add: slice_def ascii_def)
  have "pipeline (ascii ''intro\<newline>\<newline>---\<newline>id: 1\<newline>hi\<newline>'') 1048576
       = Inr [ascii ''---\<newline>id: 1\<newline>hi\<newline>'']"
    unfolding pipeline_def recs by (simp add: eval_defs)
  moreover have "concat [ascii ''---\<newline>id: 1\<newline>hi\<newline>''] \<noteq> ascii ''intro\<newline>\<newline>---\<newline>id: 1\<newline>hi\<newline>''"
    by (simp add: ascii_def)
  ultimately show ?thesis
    using starts by blast
qed

text \<open>
  Claim C6, as amended. A document without boundaries is one record, the document
  itself. When it is not empty and fits the budget, the pipeline returns it as the only
  chunk; when it is longer than the budget, the pipeline returns the line split of the
  document, which concatenates to the document.
\<close>

theorem no_boundary_single_record:
  assumes "find_record_starts md = []"
  shows "split_into_records md = [md]
         \<and> (encodable md \<and> utf8_bytes md \<le> max_bytes \<and> md \<noteq> [] \<longrightarrow>
              pipeline md max_bytes = Inr [md])
         \<and> (encodable md \<and> max_bytes < utf8_bytes md \<longrightarrow>
              pipeline md max_bytes = split_large_record max_bytes md []
              \<and> (\<exists>cs. pipeline md max_bytes = Inr cs \<and> concat cs = md))"
proof -
  have recs: "split_into_records md = [md]"
    using assms by (simp add: split_into_records_def)
  have small: "pipeline md max_bytes = Inr [md]"
    if "encodable md" and "utf8_bytes md \<le> max_bytes" and "md \<noteq> []"
    unfolding pipeline_def recs using that by (rule chunk_single_small)
  have large: "pipeline md max_bytes = split_large_record max_bytes md []
        \<and> (\<exists>cs. pipeline md max_bytes = Inr cs \<and> concat cs = md)"
    if enc: "encodable md" and big: "max_bytes < utf8_bytes md"
  proof -
    have eq: "pipeline md max_bytes = split_large_record max_bytes md []"
      unfolding pipeline_def recs using that by (rule chunk_single_large)
    obtain cs where cs: "pipeline md max_bytes = Inr cs"
      using pipeline_total [OF enc] by blast
    then have "concat cs = md"
      using pipeline_concat [OF cs] assms by simp
    with eq cs show ?thesis by blast
  qed
  from recs small large show ?thesis
    by blast
qed

theorem no_boundary_single_record_witness:
  "find_record_starts (ascii ''ab\<newline>cd'') = []
   \<and> split_into_records (ascii ''ab\<newline>cd'') = [ascii ''ab\<newline>cd'']
   \<and> pipeline (ascii ''ab\<newline>cd'') 5 = Inr [ascii ''ab\<newline>cd'']
   \<and> pipeline (ascii ''ab\<newline>cd'') 3 = split_large_record 3 (ascii ''ab\<newline>cd'') []
   \<and> split_large_record 3 (ascii ''ab\<newline>cd'') [] = Inr [ascii ''ab\<newline>'', ascii ''cd'']"
proof -
  have starts: "find_record_starts (ascii ''ab\<newline>cd'') = []"
    by code_simp
  have enc: "encodable (ascii ''ab\<newline>cd'')" and len: "utf8_bytes (ascii ''ab\<newline>cd'') = 5"
    and ne: "ascii ''ab\<newline>cd'' \<noteq> []"
    by (simp_all add: eval_defs)
  have lines: "split_large_record 3 (ascii ''ab\<newline>cd'') [] = Inr [ascii ''ab\<newline>'', ascii ''cd'']"
    by (simp add: eval_defs)
  from no_boundary_single_record [OF starts, of 5] no_boundary_single_record [OF starts, of 3]
    starts enc len ne lines
  show ?thesis
    by simp
qed

text \<open>
  Claim C6 as it is stated fails on the empty document: it has no boundary and fits
  every budget that is not negative, and the pipeline returns no chunk, not one.
\<close>

theorem empty_document_counterexample:
  "find_record_starts [] = [] \<and> utf8_len [] = Inr 0 \<and> (0::int) \<le> 1000
   \<and> pipeline [] 1000 = Inr [] \<and> length ([] :: pystr list) \<noteq> 1"
  by (simp add: find_record_starts_Nil pipeline_Nil utf8_len_def)

text \<open>
  Claim C8. Two runs of \<open>split_into_records\<close> followed by \<open>chunk_records_by_size\<close> on
  the same document and the same budget return the same result: the chunk list depends
  on the document and the budget only, every run starting from the empty accumulator.
\<close>

theorem pipeline_deterministic:
  assumes "split_into_records md = records1" and "chunk_records_by_size records1 max_bytes = run1"
    and "split_into_records md = records2" and "chunk_records_by_size records2 max_bytes = run2"
  shows "run1 = run2 \<and> run1 = pipeline md max_bytes"
  using assms by (auto simp: pipeline_def)

theorem pipeline_deterministic_witness:
  "split_into_records (ascii ''ab\<newline>cd'') = [ascii ''ab\<newline>cd'']
   \<and> chunk_records_by_size [ascii ''ab\<newline>cd''] 3 = Inr [ascii ''ab\<newline>'', ascii ''cd'']
   \<and> pipeline (ascii ''ab\<newline>cd'') 3 = Inr [ascii ''ab\<newline>'', ascii ''cd'']"
proof -
  have starts: "find_record_starts (ascii ''ab\<newline>cd'') = []"
    by code_simp
  have recs: "split_into_records (ascii ''ab\<newline>cd'') = [ascii ''ab\<newline>cd'']"
    by (simp add: split_into_records_def starts)
  have run: "chunk_records_by_size [ascii ''ab\<newline>cd''] 3 = Inr [ascii ''ab\<newline>'', ascii ''cd'']"
    by (simp add: eval_defs)
  from pipeline_deterministic [OF recs run recs run] recs run show ?thesis
    by simp
qed

end
